theory Spec2Isabelle
  imports Complex_Main "HOL-Library.Multiset"
begin

section \<open>Values and errors\<close>

text \<open>
  The elements of a sequence are arbitrary Python objects. The code compares elements
  and results against \<^verbatim>\<open>None\<close> in several places, so an element is a value of type
  \<open>'a option\<close>: \<open>None\<close> is Python's \<^verbatim>\<open>None\<close>, \<open>Some v\<close> is any other object.
  Exceptions are values of the datatype \<open>error\<close>; a method that can raise returns
  \<open>error + result\<close>, with \<open>Inl\<close> for the exception.
\<close>

datatype error =
    IndexError
  | NoElementsError
  | NoMatchingElement
  | MoreThanOneMatchingElement
  | NullArgumentError
  | StopIteration

section \<open>The base class \<^verbatim>\<open>Enumerable\<close> over a list\<close>

text \<open>
  \<^verbatim>\<open>Enumerable.__init__\<close> stores the iterable in \<^verbatim>\<open>_data\<close> and builds
  \<^verbatim>\<open>_cycle = itertools.cycle(_data)\<close>, one cursor per node, shared by every traversal
  of the node. For a list that is never mutated, \<^verbatim>\<open>itertools.cycle\<close> returns the
  elements of the list in order and starts again after the last one, so its state is the
  index of the element it returns next (\<open>cycle_pos\<close>). On an empty list it raises
  \<^verbatim>\<open>StopIteration\<close>.
\<close>

record 'a enumerable =
  data :: "'a option list"
  cycle_pos :: nat

definition Enumerable :: "'a option list \<Rightarrow> 'a enumerable" where
  "Enumerable xs = \<lparr>data = xs, cycle_pos = 0\<rparr>"

text \<open>\<^verbatim>\<open>next(self._cycle)\<close>: \<open>None\<close> is \<^verbatim>\<open>StopIteration\<close>.\<close>

definition next_cycle ::
  "('a, 'm) enumerable_scheme \<Rightarrow> ('a option \<times> ('a, 'm) enumerable_scheme) option" where
  "next_cycle e =
     (if data e = [] then None
      else Some (data e ! (cycle_pos e mod length (data e)),
                 e\<lparr>cycle_pos := Suc (cycle_pos e) mod length (data e)\<rparr>))"

text \<open>\<^verbatim>\<open>__len__\<close>: \<^verbatim>\<open>sum(1 for i in enumerate(self._data))\<close>, on a list.\<close>

definition len :: "('a, 'm) enumerable_scheme \<Rightarrow> nat" where
  "len e = length (data e)"

text \<open>
  \<^verbatim>\<open>__iter__\<close> is a generator:
  \<^verbatim>\<open>i = 0; while i < len(self): yield next(self._cycle); i += 1\<close>.
  A live generator is its local variable \<open>i\<close>; \<open>iter_new\<close> is the generator that
  \<^verbatim>\<open>iter(node)\<close> returns, and \<open>iter_next\<close> resumes a generator once: it gives the
  element yielded, the node (whose cursor has moved) and the generator, or \<open>None\<close> when
  the generator is exhausted. (\<^verbatim>\<open>next\<close> cannot raise here: \<open>i < len e\<close> excludes the
  empty list.)
\<close>

definition iter_new :: nat where
  "iter_new = 0"

definition iter_next ::
  "('a, 'm) enumerable_scheme \<Rightarrow> nat \<Rightarrow> ('a option \<times> ('a, 'm) enumerable_scheme \<times> nat) option" where
  "iter_next e i =
     (if i < len e
      then (case next_cycle e of None \<Rightarrow> None | Some (x, e') \<Rightarrow> Some (x, e', Suc i))
      else None)"

text \<open>A generator run until it is exhausted: the elements it yields and the node it leaves.\<close>

function iter_from ::
  "('a, 'm) enumerable_scheme \<Rightarrow> nat \<Rightarrow> 'a option list \<times> ('a, 'm) enumerable_scheme" where
  "iter_from e i =
     (case iter_next e i of
        None \<Rightarrow> ([], e)
      | Some (x, e', i') \<Rightarrow> (let (ys, e'') = iter_from e' i' in (x # ys, e'')))"
  by pat_completeness auto
termination
  by (relation "measure (\<lambda>(e, i). length (data e) - i)")
     (auto simp: iter_next_def next_cycle_def len_def split: if_splits option.splits)

declare iter_from.simps [simp del]

text \<open>\<^verbatim>\<open>to_list\<close>: \<^verbatim>\<open>[x for x in self]\<close>.\<close>

definition to_list ::
  "('a, 'm) enumerable_scheme \<Rightarrow> 'a option list \<times> ('a, 'm) enumerable_scheme" where
  "to_list e = iter_from e iter_new"

text \<open>
  \<^verbatim>\<open>__getitem__\<close>: a negative index raises; on an empty node the result is
  \<^verbatim>\<open>None\<close>; otherwise the node is traversed completely (the loop has no
  \<^verbatim>\<open>break\<close>) and the element whose index is \<open>n\<close> is kept, \<^verbatim>\<open>None\<close> when there is
  none.
\<close>

definition getitem ::
  "('a, 'm) enumerable_scheme \<Rightarrow> int \<Rightarrow> (error + 'a option) \<times> ('a, 'm) enumerable_scheme" where
  "getitem e n =
     (if n < 0 then (Inl IndexError, e)
      else if len e = 0 then (Inr None, e)
      else (let (ys, e') = to_list e in
            (Inr (foldl (\<lambda>result (index, element). if int index = n then element else result)
                    None (enumerate 0 ys)), e')))"

text \<open>\<^verbatim>\<open>element_at\<close>: the index is an \<^verbatim>\<open>int\<close> by its type here.\<close>

definition element_at ::
  "('a, 'm) enumerable_scheme \<Rightarrow> int \<Rightarrow> (error + 'a option) \<times> ('a, 'm) enumerable_scheme" where
  "element_at e n =
     (case getitem e n of
        (Inl err, e') \<Rightarrow> (Inl err, e')
      | (Inr result, e') \<Rightarrow> if result = None then (Inl IndexError, e') else (Inr result, e'))"

text \<open>\<^verbatim>\<open>element_at_or_default\<close>: \<^verbatim>\<open>except IndexError: return None\<close>.\<close>

definition element_at_or_default ::
  "('a, 'm) enumerable_scheme \<Rightarrow> int \<Rightarrow> (error + 'a option) \<times> ('a, 'm) enumerable_scheme" where
  "element_at_or_default e n =
     (case element_at e n of
        (Inl err, e') \<Rightarrow> if err = IndexError then (Inr None, e') else (Inl err, e')
      | (Inr result, e') \<Rightarrow> (Inr result, e'))"

text \<open>
  \<^verbatim>\<open>first\<close>, \<^verbatim>\<open>first_or_default\<close> and \<^verbatim>\<open>any\<close>, called without a predicate
  (\<^verbatim>\<open>func is None\<close>).
\<close>

definition first ::
  "('a, 'm) enumerable_scheme \<Rightarrow> (error + 'a option) \<times> ('a, 'm) enumerable_scheme" where
  "first e = element_at e 0"

definition first_or_default ::
  "('a, 'm) enumerable_scheme \<Rightarrow> (error + 'a option) \<times> ('a, 'm) enumerable_scheme" where
  "first_or_default e = element_at_or_default e 0"

definition any ::
  "('a, 'm) enumerable_scheme \<Rightarrow> (error + bool) \<times> ('a, 'm) enumerable_scheme" where
  "any e =
     (case first_or_default e of
        (Inl err, e') \<Rightarrow> (Inl err, e')
      | (Inr result, e') \<Rightarrow> (Inr (result \<noteq> None), e'))"

text \<open>
  \<^verbatim>\<open>aggregate(func, seed=None)\<close>: the seed is a Python value, \<^verbatim>\<open>None\<close> when it is
  not given.
  \<^verbatim>\<open>
  result = seed if seed is not None else self.first()
  for i, e in enumerate(self):
      if i == 0 and seed is None:
          continue
      result = func(result, e)
  return result
  \<close>
\<close>

definition aggregate ::
  "('a, 'm) enumerable_scheme \<Rightarrow> ('a option \<Rightarrow> 'a option \<Rightarrow> 'a option) \<Rightarrow> 'a option
     \<Rightarrow> (error + 'a option) \<times> ('a, 'm) enumerable_scheme" where
  "aggregate e func seed =
     (case (if seed \<noteq> None then (Inr seed, e) else first e) of
        (Inl err, e1) \<Rightarrow> (Inl err, e1)
      | (Inr result, e1) \<Rightarrow>
          (let (ys, e2) = to_list e1 in
           (Inr (foldl (\<lambda>result (i, x). if i = 0 \<and> seed = None then result else func result x)
                   result (enumerate 0 ys)), e2)))"

section \<open>\<^verbatim>\<open>SkipWhileEnumerable\<close> and \<^verbatim>\<open>TakeWhileEnumerable\<close>\<close>

text \<open>
  Both constructors store the node they are called on in \<^verbatim>\<open>_data\<close> and set
  \<^verbatim>\<open>_cycle = itertools.cycle(self.data)\<close>. Here \<^verbatim>\<open>self.data\<close> is an
  \<^verbatim>\<open>Enumerable\<close>, so the cycle consumes the generator \<^verbatim>\<open>iter(self.data)\<close>:
  while that generator is live (\<open>source = Some i\<close>) each element comes from it, through
  the cursor of the upstream node, and is appended to the cycle's saved list; once it is
  exhausted (\<open>source = None\<close>) the cycle replays the saved list from index \<open>replay\<close>,
  for ever, and raises \<^verbatim>\<open>StopIteration\<close> only when the saved list is empty.
\<close>

record 'a while_enumerable =
  upstream :: "'a enumerable"
  source :: "nat option"
  saved :: "'a option list"
  replay :: nat

definition SkipWhileEnumerable :: "'a enumerable \<Rightarrow> 'a while_enumerable" where
  "SkipWhileEnumerable e = \<lparr>upstream = e, source = Some iter_new, saved = [], replay = 0\<rparr>"

definition TakeWhileEnumerable :: "'a enumerable \<Rightarrow> 'a while_enumerable" where
  "TakeWhileEnumerable e = \<lparr>upstream = e, source = Some iter_new, saved = [], replay = 0\<rparr>"

definition replay_saved :: "'a while_enumerable \<Rightarrow> ('a option \<times> 'a while_enumerable) option" where
  "replay_saved w =
     (if saved w = [] then None
      else Some (saved w ! replay w,
                 w\<lparr>replay := (if Suc (replay w) \<ge> length (saved w) then 0 else Suc (replay w))\<rparr>))"

text \<open>\<^verbatim>\<open>next(self._cycle)\<close> of these nodes; \<open>None\<close> is \<^verbatim>\<open>StopIteration\<close>.\<close>

definition next_wcycle :: "'a while_enumerable \<Rightarrow> ('a option \<times> 'a while_enumerable) option" where
  "next_wcycle w =
     (case source w of
        Some g \<Rightarrow>
          (case iter_next (upstream w) g of
             Some (x, up', g') \<Rightarrow>
               Some (x, w\<lparr>upstream := up', source := Some g', saved := saved w @ [x]\<rparr>)
           | None \<Rightarrow> replay_saved (w\<lparr>source := None\<rparr>))
      | None \<Rightarrow> replay_saved w)"

text \<open>
  Both \<^verbatim>\<open>__iter__\<close> methods begin with
  \<^verbatim>\<open>
  try:
      e = next(self._cycle)
  except StopIteration:
      e = None
  \<close>
\<close>

definition first_or_None :: "'a while_enumerable \<Rightarrow> 'a option \<times> 'a while_enumerable" where
  "first_or_None w = (case next_wcycle w of None \<Rightarrow> (None, w) | Some (e, w') \<Rightarrow> (e, w'))"

text \<open>
  \<^verbatim>\<open>SkipWhileEnumerable.__iter__\<close>, run to exhaustion:
  \<^verbatim>\<open>
  i = 1
  (e as above)
  skip = False if e is None else self.predicate(e)
  while skip:
      e = next(self._cycle)
      skip = self.predicate(e)
      if skip:
          i += 1
  while i < len(self.data):
      yield e
      i += 1
      e = next(self._cycle)
  \<close>
  The first loop has no bound: it is a partial function, \<open>None\<close> when it never ends. The
  second loop is bounded by \<^verbatim>\<open>len(self.data)\<close>, the length of the upstream node.
\<close>

partial_function (option) skip_loop ::
  "('a option \<Rightarrow> bool) \<Rightarrow> 'a while_enumerable \<Rightarrow> 'a option \<Rightarrow> bool \<Rightarrow> nat
     \<Rightarrow> (error + 'a option \<times> nat \<times> 'a while_enumerable) option" where
  "skip_loop p w e skip i =
     (if skip
      then (case next_wcycle w of
              None \<Rightarrow> Some (Inl StopIteration)
            | Some (e', w') \<Rightarrow> skip_loop p w' e' (p e') (if p e' then Suc i else i))
      else Some (Inr (e, i, w)))"

declare skip_loop.simps [code]

function yield_loop ::
  "'a while_enumerable \<Rightarrow> 'a option \<Rightarrow> nat \<Rightarrow> (error + 'a option list) \<times> 'a while_enumerable" where
  "yield_loop w e i =
     (if i < len (upstream w)
      then (case next_wcycle w of
              None \<Rightarrow> (Inl StopIteration, w)
            | Some (e', w') \<Rightarrow>
                (case yield_loop w' e' (Suc i) of
                   (Inl err, w'') \<Rightarrow> (Inl err, w'')
                 | (Inr ys, w'') \<Rightarrow> (Inr (e # ys), w'')))
      else (Inr [], w))"
  by pat_completeness auto
termination
  by (relation "measure (\<lambda>(w, e, i). length (data (upstream w)) - i)")
     (auto simp: next_wcycle_def replay_saved_def iter_next_def next_cycle_def len_def
           split: if_splits option.splits)

declare yield_loop.simps [simp del]

definition SkipWhile_to_list ::
  "('a option \<Rightarrow> bool) \<Rightarrow> 'a while_enumerable
     \<Rightarrow> ((error + 'a option list) \<times> 'a while_enumerable) option" where
  "SkipWhile_to_list p w =
     (let (e, w1) = first_or_None w;
          skip = (if e = None then False else p e)
      in case skip_loop p w1 e skip 1 of
           None \<Rightarrow> None
         | Some (Inl err) \<Rightarrow> Some (Inl err, w1)
         | Some (Inr (e', i, w2)) \<Rightarrow> Some (yield_loop w2 e' i))"

text \<open>
  \<^verbatim>\<open>TakeWhileEnumerable.__iter__\<close>, run to exhaustion:
  \<^verbatim>\<open>
  i = 1
  (e as above)
  take = False if e is None else self.predicate(e)
  while take:
      yield e
      e = next(self._cycle)
      take = self.predicate(e)
      i += 1
  while i < len(self.data):
      next(self._cycle)
      i += 1
  \<close>
  \<open>yielded\<close> collects the elements the first loop has yielded so far.
\<close>

partial_function (option) take_loop ::
  "('a option \<Rightarrow> bool) \<Rightarrow> 'a while_enumerable \<Rightarrow> 'a option \<Rightarrow> bool \<Rightarrow> nat \<Rightarrow> 'a option list
     \<Rightarrow> (error + 'a option list \<times> nat \<times> 'a while_enumerable) option" where
  "take_loop p w e taking i yielded =
     (if taking
      then (case next_wcycle w of
              None \<Rightarrow> Some (Inl StopIteration)
            | Some (e', w') \<Rightarrow> take_loop p w' e' (p e') (Suc i) (yielded @ [e]))
      else Some (Inr (yielded, i, w)))"

declare take_loop.simps [code]

function drain_loop :: "'a while_enumerable \<Rightarrow> nat \<Rightarrow> (error + unit) \<times> 'a while_enumerable" where
  "drain_loop w i =
     (if i < len (upstream w)
      then (case next_wcycle w of
              None \<Rightarrow> (Inl StopIteration, w)
            | Some (e', w') \<Rightarrow> drain_loop w' (Suc i))
      else (Inr (), w))"
  by pat_completeness auto
termination
  by (relation "measure (\<lambda>(w, i). length (data (upstream w)) - i)")
     (auto simp: next_wcycle_def replay_saved_def iter_next_def next_cycle_def len_def
           split: if_splits option.splits)

declare drain_loop.simps [simp del]

definition TakeWhile_to_list ::
  "('a option \<Rightarrow> bool) \<Rightarrow> 'a while_enumerable
     \<Rightarrow> ((error + 'a option list) \<times> 'a while_enumerable) option" where
  "TakeWhile_to_list p w =
     (let (e, w1) = first_or_None w;
          taking = (if e = None then False else p e)
      in case take_loop p w1 e taking 1 [] of
           None \<Rightarrow> None
         | Some (Inl err) \<Rightarrow> Some (Inl err, w1)
         | Some (Inr (yielded, i, w2)) \<Rightarrow>
             (case drain_loop w2 i of
                (Inl err, w3) \<Rightarrow> Some (Inl err, w3)
              | (Inr u, w3) \<Rightarrow> Some (Inr yielded, w3)))"

section \<open>\<^verbatim>\<open>SkipEnumerable\<close>, \<^verbatim>\<open>TakeEnumerable\<close> and \<^verbatim>\<open>ReversedEnumerable\<close>\<close>

text \<open>
  These nodes store another node in \<^verbatim>\<open>_data\<close> and reach it through
  \<^verbatim>\<open>len(node)\<close>, a complete traversal \<^verbatim>\<open>for x in node\<close> and \<^verbatim>\<open>node[n]\<close>. A node
  is given by these three methods, acting on the mutable state \<open>'s\<close> of the node and of
  everything upstream of it. A method returns \<open>None\<close> when it does not return, and
  otherwise its result or the exception it raises, with the state it leaves.
\<close>

type_synonym ('s, 'r) action = "'s \<Rightarrow> ((error + 'r) \<times> 's) option"

definition return :: "'r \<Rightarrow> ('s, 'r) action" where
  "return r s = Some (Inr r, s)"

definition raise :: "error \<Rightarrow> ('s, 'r) action" where
  "raise err s = Some (Inl err, s)"

definition and_then :: "('s, 'r) action \<Rightarrow> ('r \<Rightarrow> ('s, 'q) action) \<Rightarrow> ('s, 'q) action" where
  "and_then m f s =
     (case m s of
        None \<Rightarrow> None
      | Some (Inl err, s') \<Rightarrow> Some (Inl err, s')
      | Some (Inr r, s') \<Rightarrow> f r s')"

record ('s, 'a) node =
  len_of :: "('s, nat) action"
  list_of :: "('s, 'a option list) action"
  item_of :: "int \<Rightarrow> ('s, 'a option) action"

text \<open>The base class over a list, with the methods of the previous section.\<close>

definition Enumerable_node :: "('a enumerable, 'a) node" where
  "Enumerable_node =
     \<lparr>len_of = (\<lambda>e. Some (Inr (len e), e)),
      list_of = (\<lambda>e. case to_list e of (ys, e') \<Rightarrow> Some (Inr ys, e')),
      item_of = (\<lambda>n e. Some (getitem e n))\<rparr>"

text \<open>
  The methods a subclass inherits from \<^verbatim>\<open>Enumerable\<close> when \<^verbatim>\<open>_data\<close> is the node
  \<open>up\<close>. \<^verbatim>\<open>__len__\<close> counts a traversal of \<^verbatim>\<open>_data\<close>; \<^verbatim>\<open>__getitem__\<close> uses
  \<^verbatim>\<open>len(self)\<close> and a traversal of \<^verbatim>\<open>self\<close>; \<^verbatim>\<open>__iter__\<close> evaluates
  \<^verbatim>\<open>len(self)\<close> before every element and takes the element from \<^verbatim>\<open>self._cycle\<close>.
  Nothing bounds that loop, so it is a partial function; \<open>yielded\<close> collects the elements
  yielded so far.
\<close>

definition inherited_len :: "('s, 'a) node \<Rightarrow> ('s, nat) action" where
  "inherited_len up = and_then (list_of up) (\<lambda>ys. return (length ys))"

definition inherited_getitem ::
  "('s, nat) action \<Rightarrow> ('s, 'a option list) action \<Rightarrow> int \<Rightarrow> ('s, 'a option) action" where
  "inherited_getitem self_len self_list n =
     (if n < 0 then raise IndexError
      else and_then self_len (\<lambda>l.
             if l = 0 then return None
             else and_then self_list (\<lambda>ys.
                    return (foldl (\<lambda>result (index, element). if int index = n then element else result)
                              None (enumerate 0 ys)))))"

partial_function (option) inherited_iter ::
  "('s, nat) action \<Rightarrow> ('s, 'a option) action \<Rightarrow> nat \<Rightarrow> 'a option list
     \<Rightarrow> ('s, 'a option list) action" where
  "inherited_iter self_len self_next i yielded s =
     (case self_len s of
        None \<Rightarrow> None
      | Some (Inl err, s1) \<Rightarrow> Some (Inl err, s1)
      | Some (Inr l, s1) \<Rightarrow>
          if i < l
          then (case self_next s1 of
                  None \<Rightarrow> None
                | Some (Inl err, s2) \<Rightarrow> Some (Inl err, s2)
                | Some (Inr x, s2) \<Rightarrow> inherited_iter self_len self_next (Suc i) (yielded @ [x]) s2)
          else Some (Inr yielded, s1))"

declare inherited_iter.simps [code]

text \<open>
  \<^verbatim>\<open>SkipEnumerable\<close> and \<^verbatim>\<open>TakeEnumerable\<close> override \<^verbatim>\<open>__iter__\<close> only:
  \<^verbatim>\<open>for index, element in enumerate(self.data): if index >= self.n: yield element\<close>
  (\<^verbatim>\<open>index < self.n\<close> for take). None of the three methods reads their
  \<^verbatim>\<open>_cycle\<close>, so these nodes add no state of their own.
\<close>

definition SkipEnumerable :: "('s, 'a) node \<Rightarrow> int \<Rightarrow> ('s, 'a) node" where
  "SkipEnumerable up n =
     (let self_len = inherited_len up;
          self_list = and_then (list_of up) (\<lambda>ys.
                        return [element. (index, element) \<leftarrow> enumerate 0 ys, int index \<ge> n])
      in \<lparr>len_of = self_len, list_of = self_list, item_of = inherited_getitem self_len self_list\<rparr>)"

definition TakeEnumerable :: "('s, 'a) node \<Rightarrow> int \<Rightarrow> ('s, 'a) node" where
  "TakeEnumerable up n =
     (let self_len = inherited_len up;
          self_list = and_then (list_of up) (\<lambda>ys.
                        return [element. (index, element) \<leftarrow> enumerate 0 ys, int index < n])
      in \<lparr>len_of = self_len, list_of = self_list, item_of = inherited_getitem self_len self_list\<rparr>)"

text \<open>
  \<^verbatim>\<open>ReversedEnumerable.__init__\<close> sets
  \<^verbatim>\<open>_cycle = itertools.cycle(reversed(self.data))\<close>. The upstream node has no
  \<^verbatim>\<open>__reversed__\<close>, so \<^verbatim>\<open>reversed\<close> uses the sequence protocol: it calls
  \<^verbatim>\<open>len(self.data)\<close> once, when it is created, and then reads
  \<^verbatim>\<open>self.data[index]\<close> for \<open>index\<close> from that length minus one down to zero, one read
  for each element asked of it; an \<^verbatim>\<open>IndexError\<close> or \<^verbatim>\<open>StopIteration\<close> from the read
  ends it. The cycle saves what it receives and replays it once \<^verbatim>\<open>reversed\<close> is
  exhausted.
\<close>

record 'a rcycle =
  rindex :: int
  rlive :: bool
  rsaved :: "'a option list"
  rreplay :: nat

definition ReversedEnumerable_init ::
  "('s, 'a) node \<Rightarrow> 's \<Rightarrow> (error + 's \<times> 'a rcycle) option" where
  "ReversedEnumerable_init up s =
     (case len_of up s of
        None \<Rightarrow> None
      | Some (Inl err, s') \<Rightarrow> Some (Inl err)
      | Some (Inr l, s') \<Rightarrow>
          Some (Inr (s', \<lparr>rindex = int l - 1, rlive = True, rsaved = [], rreplay = 0\<rparr>)))"

definition replay_rsaved :: "('s \<times> 'a rcycle, 'a option) action" where
  "replay_rsaved = (\<lambda>(s, c).
     if rsaved c = [] then Some (Inl StopIteration, (s, c))
     else Some (Inr (rsaved c ! rreplay c),
                (s, c\<lparr>rreplay := (if Suc (rreplay c) \<ge> length (rsaved c) then 0
                                    else Suc (rreplay c))\<rparr>)))"

definition next_rcycle :: "('s, 'a) node \<Rightarrow> ('s \<times> 'a rcycle, 'a option) action" where
  "next_rcycle up = (\<lambda>(s, c).
     if rlive c \<and> 0 \<le> rindex c
     then (case item_of up (rindex c) s of
             None \<Rightarrow> None
           | Some (Inr x, s') \<Rightarrow>
               Some (Inr x, (s', c\<lparr>rindex := rindex c - 1, rsaved := rsaved c @ [x]\<rparr>))
           | Some (Inl err, s') \<Rightarrow>
               if err = IndexError \<or> err = StopIteration
               then replay_rsaved (s', c\<lparr>rindex := - 1, rlive := False\<rparr>)
               else Some (Inl err, (s', c)))
     else replay_rsaved (s, c\<lparr>rindex := - 1, rlive := False\<rparr>))"

definition on_upstream :: "('s, 'r) action \<Rightarrow> ('s \<times> 'c, 'r) action" where
  "on_upstream m = (\<lambda>(s, c). case m s of None \<Rightarrow> None | Some (r, s') \<Rightarrow> Some (r, (s', c)))"

definition ReversedEnumerable :: "('s, 'a) node \<Rightarrow> ('s \<times> 'a rcycle, 'a) node" where
  "ReversedEnumerable up =
     (let self_len = on_upstream (inherited_len up);
          self_list = inherited_iter self_len (next_rcycle up) 0 []
      in \<lparr>len_of = self_len, list_of = self_list, item_of = inherited_getitem self_len self_list\<rparr>)"

section \<open>\<^verbatim>\<open>SortedEnumerable\<close>\<close>

text \<open>
  Python's \<^verbatim>\<open>sorted(xs, key=k, reverse=r)\<close> is stable, also with \<^verbatim>\<open>reverse=True\<close>:
  elements with equal keys keep their order. The keys of all directives of a node have one
  linearly ordered type here.
\<close>

definition py_sorted :: "('a \<Rightarrow> 'k::linorder) \<Rightarrow> bool \<Rightarrow> 'a list \<Rightarrow> 'a list" where
  "py_sorted key reverse xs = (if reverse then rev (sort_key key (rev xs)) else sort_key key xs)"

text \<open>
  An \<^verbatim>\<open>OrderingDirection\<close> is the pair of its key and its \<^verbatim>\<open>descending\<close> flag. The
  constructor sorts by the directives from the last to the first:
  \<^verbatim>\<open>
  for o in reversed(self._key_funcs):
      self._data = sorted(self._data, key=o.key, reverse=o.descending)
  \<close>
  The first \<^verbatim>\<open>sorted\<close> traverses the node the constructor was given. (The methods below
  always pass at least one directive.)
\<close>

record ('a, 'k) sorted_enumerable = "'a enumerable" +
  key_funcs :: "(('a option \<Rightarrow> 'k) \<times> bool) list"

definition SortedEnumerable ::
  "('a, 'm) enumerable_scheme \<Rightarrow> (('a option \<Rightarrow> 'k::linorder) \<times> bool) list
     \<Rightarrow> ('a, 'k) sorted_enumerable \<times> ('a, 'm) enumerable_scheme" where
  "SortedEnumerable e kfs =
     (let (ys, e') = to_list e in
      (\<lparr>data = fold (\<lambda>od d. py_sorted (fst od) (snd od) d) (rev kfs) ys, cycle_pos = 0,
        key_funcs = kfs\<rparr>, e'))"

definition order_by ::
  "('a, 'm) enumerable_scheme \<Rightarrow> ('a option \<Rightarrow> 'k::linorder)
     \<Rightarrow> ('a, 'k) sorted_enumerable \<times> ('a, 'm) enumerable_scheme" where
  "order_by e key = SortedEnumerable e [(key, False)]"


text \<open>
  \<^verbatim>\<open>then_by\<close> appends to the list of the receiver and passes that list to the
  constructor:
  \<^verbatim>\<open>
  self._key_funcs.append(OrderingDirection(key=func, reverse=False))
  return SortedEnumerable(self, self._key_funcs)
  \<close>
  The result is the new node and the receiver as the call leaves it.
\<close>

definition then_by ::
  "('a, 'k::linorder) sorted_enumerable \<Rightarrow> ('a option \<Rightarrow> 'k)
     \<Rightarrow> ('a, 'k) sorted_enumerable \<times> ('a, 'k) sorted_enumerable" where
  "then_by s func =
     (let s1 = s\<lparr>key_funcs := key_funcs s @ [(func, False)]\<rparr>
      in SortedEnumerable s1 (key_funcs s1))"


section \<open>\<^verbatim>\<open>median\<close>\<close>




section \<open>\<^verbatim>\<open>UnionEnumerable\<close> and \<^verbatim>\<open>GroupedEnumerable\<close>\<close>












section \<open>\<^verbatim>\<open>GroupJoinEnumerable\<close>\<close>

text \<open>
  \<^verbatim>\<open>
  for o in self.data:
      ok = self.outer_key(o)
      result = self.result_func(
          (o, Grouping(Key({"id": ok}),
                       self.inner_enumerable.where(lambda i: self.inner_key(i) == ok))))
      yield result
  \<close>
  The predicate of the \<^verbatim>\<open>where\<close> node does not hold a key: it reads the variable
  \<^verbatim>\<open>ok\<close> of the running generator each time it is applied. The frame of the generator
  is the record \<open>join_frame\<close>. A \<^verbatim>\<open>Grouping\<close> made here holds its \<^verbatim>\<open>Key\<close>; its
  elements are those of the \<^verbatim>\<open>where\<close> node, computed when the grouping is first
  traversed, in the frame as it is then (\<open>join_grouping_to_list\<close>). The result selector
  is given the frame as it is during the call, so that it can traverse the grouping it
  receives.
\<close>

record 'k join_frame =
  ok :: "'k option"

record 'k join_grouping =
  jkey_prop :: "(string \<times> 'k) list"

definition join_grouping_to_list ::
  "'k join_frame \<Rightarrow> ('b option \<Rightarrow> 'k) \<Rightarrow> 'b option list \<Rightarrow> 'b option list" where
  "join_grouping_to_list fr inner_key inner = filter (\<lambda>i. Some (inner_key i) = ok fr) inner"

fun GroupJoin_iter ::
  "('a option \<Rightarrow> 'k) \<Rightarrow> ('a option \<times> 'k join_grouping \<Rightarrow> 'k join_frame \<Rightarrow> 'r)
     \<Rightarrow> 'a option list \<Rightarrow> 'k join_frame \<Rightarrow> 'r list \<times> 'k join_frame" where
  "GroupJoin_iter outer_key result_func [] fr = ([], fr)"
| "GroupJoin_iter outer_key result_func (outer # rest) fr =
     (let fr1 = fr\<lparr>ok := Some (outer_key outer)\<rparr>;
          result = result_func (outer, \<lparr>jkey_prop = [(''id'', outer_key outer)]\<rparr>) fr1;
          (results, fr2) = GroupJoin_iter outer_key result_func rest fr1
      in (result # results, fr2))"

section \<open>Notions used to state the properties\<close>






text \<open>
  States of the cycle of a \<^verbatim>\<open>SkipWhileEnumerable\<close> or \<^verbatim>\<open>TakeWhileEnumerable\<close> over
  a fresh node on the list \<open>xs\<close>: after \<open>k\<close> elements of the first pass
  (\<open>first_pass\<close>), and after the first replayed element (\<open>wrapped\<close>); and what every
  state reached from them satisfies (\<open>cycle_inv\<close>).
\<close>

definition first_pass :: "'a option list \<Rightarrow> nat \<Rightarrow> 'a while_enumerable" where
  "first_pass xs k =
     \<lparr>upstream = \<lparr>data = xs, cycle_pos = k mod length xs\<rparr>, source = Some k,
      saved = take k xs, replay = 0\<rparr>"

definition wrapped :: "'a option list \<Rightarrow> 'a while_enumerable" where
  "wrapped xs =
     \<lparr>upstream = \<lparr>data = xs, cycle_pos = 0\<rparr>, source = None, saved = xs,
      replay = (if Suc 0 \<ge> length xs then 0 else Suc 0)\<rparr>"

definition cycle_inv :: "'a option list \<Rightarrow> 'a while_enumerable \<Rightarrow> bool" where
  "cycle_inv xs w \<longleftrightarrow>
     xs \<noteq> [] \<and> data (upstream w) = xs \<and> set (saved w) \<subseteq> set xs \<and>
     (replay w < length (saved w) \<or> replay w = 0) \<and>
     (case source w of None \<Rightarrow> saved w \<noteq> [] | Some g \<Rightarrow> g < length xs \<or> saved w \<noteq> [])"

text \<open>
  A node is faithful to the list \<open>ys\<close> on the states \<open>G\<close> when, from each such state,
  its length is the length of \<open>ys\<close>, its traversal yields \<open>ys\<close>, its item at each
  position of \<open>ys\<close> is the element there, and the state it is left in is again in \<open>G\<close>.
  \<open>rc_first\<close> and \<open>rc_replay\<close> are the states of the cycle of a reversed node over
  such a node: after \<open>i\<close> elements of the first pass, and replaying from index \<open>j\<close>;
  \<open>rgood\<close> holds of the states in which a traversal of the reversed node begins.
\<close>

definition faithful :: "('s, 'a) node \<Rightarrow> ('s \<Rightarrow> bool) \<Rightarrow> 'a option list \<Rightarrow> bool" where
  "faithful up G ys \<longleftrightarrow>
     (\<forall>s. G s \<longrightarrow>
        (\<exists>s'. G s' \<and> len_of up s = Some (Inr (length ys), s')) \<and>
        (\<exists>s'. G s' \<and> list_of up s = Some (Inr ys, s')) \<and>
        (\<forall>k<length ys. \<exists>s'. G s' \<and> item_of up (int k) s = Some (Inr (ys ! k), s')))"

definition rc_first :: "'a option list \<Rightarrow> nat \<Rightarrow> 'a rcycle" where
  "rc_first ys i =
     \<lparr>rindex = int (length ys) - 1 - int i, rlive = True, rsaved = take i (rev ys), rreplay = 0\<rparr>"

definition rc_replay :: "'a option list \<Rightarrow> nat \<Rightarrow> 'a rcycle" where
  "rc_replay ys j = \<lparr>rindex = - 1, rlive = False, rsaved = rev ys, rreplay = j\<rparr>"

definition rgood :: "('s \<Rightarrow> bool) \<Rightarrow> 'a option list \<Rightarrow> 's \<times> 'a rcycle \<Rightarrow> bool" where
  "rgood G ys = (\<lambda>(s, c). G s \<and>
      (c = rc_first ys 0 \<or> c = rc_first ys (length ys) \<or> (ys \<noteq> [] \<and> c = rc_replay ys 0)))"

text \<open>
  Projections used in the examples: \<^verbatim>\<open>lambda x: x\<close> on integers and on keys, and
  \<^verbatim>\<open>lambda t: t[0]\<close>, \<^verbatim>\<open>lambda t: t[1]\<close>, \<^verbatim>\<open>lambda t: t[2]\<close> on pairs and triples.
  Only \<open>key_of_element\<close> is ever applied to \<^verbatim>\<open>None\<close> in an example; the value of
  the others there is not used.
\<close>

definition int_key :: "int option \<Rightarrow> int" where
  "int_key x = (case x of None \<Rightarrow> 0 | Some v \<Rightarrow> v)"


definition pair_item0 :: "(int \<times> string) option \<Rightarrow> int" where
  "pair_item0 x = (case x of None \<Rightarrow> 0 | Some (a, b) \<Rightarrow> a)"

definition item0 :: "(int \<times> int \<times> int) option \<Rightarrow> int" where
  "item0 x = (case x of None \<Rightarrow> 0 | Some (a, b, c) \<Rightarrow> a)"

definition item1 :: "(int \<times> int \<times> int) option \<Rightarrow> int" where
  "item1 x = (case x of None \<Rightarrow> 0 | Some (a, b, c) \<Rightarrow> b)"

definition item2 :: "(int \<times> int \<times> int) option \<Rightarrow> int" where
  "item2 x = (case x of None \<Rightarrow> 0 | Some (a, b, c) \<Rightarrow> c)"

section \<open>Traversals of the base class\<close>

text \<open>
  A generator of a node never ends before it has advanced the shared cursor once for each
  element, so a complete traversal yields every element once, in cyclic order from the
  position of the cursor, and returns the cursor to that position.
\<close>

lemma iter_from_cyclic:
  "cycle_pos e < length (data e) \<Longrightarrow> i \<le> length (data e) \<Longrightarrow>
   iter_from e i =
     (map (\<lambda>k. data e ! ((cycle_pos e + k) mod length (data e))) [0..<length (data e) - i],
      e\<lparr>cycle_pos := (cycle_pos e + (length (data e) - i)) mod length (data e)\<rparr>)"
proof (induction e i rule: iter_from.induct)
  case (1 e i)
  let ?n = "length (data e)"
  show ?case
  proof (cases "i < ?n")
    case False
    with "1.prems" have "i = ?n" by simp
    with "1.prems" show ?thesis
      by (subst iter_from.simps) (simp add: iter_next_def len_def)
  next
    case True
    then have ne: "data e \<noteq> []" by auto
    define e' where "e' = e\<lparr>cycle_pos := Suc (cycle_pos e) mod ?n\<rparr>"
    have nx: "iter_next e i = Some (data e ! cycle_pos e, e', Suc i)"
      using True ne "1.prems" by (simp add: iter_next_def len_def next_cycle_def e'_def)
    have d: "data e' = data e" by (simp add: e'_def)
    have p: "cycle_pos e' < length (data e')" using ne by (simp add: e'_def)
    have IH: "iter_from e' (Suc i) =
      (map (\<lambda>k. data e' ! ((cycle_pos e' + k) mod length (data e'))) [0..<length (data e') - Suc i],
       e'\<lparr>cycle_pos := (cycle_pos e' + (length (data e') - Suc i)) mod length (data e')\<rparr>)"
      using "1.IH"[OF nx refl refl p] True d by simp
    have len: "?n - i = Suc (?n - Suc i)" using True by simp
    have m: "map (\<lambda>k. data e ! ((cycle_pos e + k) mod ?n)) [0..<?n - i] =
          data e ! cycle_pos e #
          map (\<lambda>k. data e ! ((Suc (cycle_pos e) mod ?n + k) mod ?n)) [0..<?n - Suc i]"
      using "1.prems"
      apply (simp only: len upt_rec[of 0 "Suc _"])
      apply (simp add: map_Suc_upt[symmetric] del: upt_Suc)
      apply (simp add: mod_add_left_eq)
      done
    show ?thesis
      apply (subst iter_from.simps)
      apply (simp add: nx IH d m)
      apply (simp add: e'_def len mod_add_left_eq)
      done
  qed
qed

lemma to_list_rotate:
  assumes "cycle_pos e < length (data e)"
  shows "to_list e = (rotate (cycle_pos e) (data e), e)"
proof -
  have "map (\<lambda>k. data e ! ((cycle_pos e + k) mod length (data e))) [0..<length (data e)]
        = rotate (cycle_pos e) (data e)"
    by (rule nth_equalityI) (simp_all add: nth_rotate)
  with assms show ?thesis
    by (simp add: to_list_def iter_new_def iter_from_cyclic)
qed

lemma to_list_Enumerable: "to_list (Enumerable xs) = (xs, Enumerable xs)"
proof (cases "xs = []")
  case True
  then show ?thesis
    by (simp add: to_list_def iter_new_def iter_from.simps iter_next_def Enumerable_def len_def)
next
  case False
  then have "cycle_pos (Enumerable xs) < length (data (Enumerable xs))"
    by (simp add: Enumerable_def)
  from to_list_rotate[OF this] show ?thesis by (simp add: Enumerable_def)
qed

lemma len_Enumerable [simp]: "len (Enumerable xs) = length xs"
  by (simp add: len_def Enumerable_def)

lemma Enumerable_sel [simp]: "data (Enumerable xs) = xs" "cycle_pos (Enumerable xs) = 0"
  by (simp_all add: Enumerable_def)


text \<open>A traversal changes nothing of a node but its cursor.\<close>

lemma iter_from_moves_cursor_only: "\<exists>p. snd (iter_from e i) = e\<lparr>cycle_pos := p\<rparr>"
proof (induction e i rule: iter_from.induct)
  case (1 e i)
  show ?case
  proof (cases "iter_next e i")
    case None
    then have "snd (iter_from e i) = e\<lparr>cycle_pos := cycle_pos e\<rparr>"
      by (subst iter_from.simps) simp
    then show ?thesis by blast
  next
    case (Some r)
    obtain x e' i' where r: "r = (x, e', i')" by (cases r)
    from Some r have e': "e' = e\<lparr>cycle_pos := Suc (cycle_pos e) mod length (data e)\<rparr>"
      by (auto simp: iter_next_def next_cycle_def split: if_splits)
    from "1.IH"[OF Some[unfolded r] refl refl]
    obtain p where "snd (iter_from e' i') = e'\<lparr>cycle_pos := p\<rparr>"
      by blast
    then have "snd (iter_from e i) = e\<lparr>cycle_pos := p\<rparr>"
      using Some r e' by (subst iter_from.simps) (simp add: case_prod_beta)
    then show ?thesis by blast
  qed
qed




section \<open>Indexing and the absent sentinel\<close>

lemma foldl_pick:
  "foldl (\<lambda>result (index, element). if int index = int n then element else result) r (enumerate 0 ys)
     = (if n < length ys then ys ! n else r)"
proof (induction ys rule: rev_induct)
  case Nil
  show ?case by simp
next
  case (snoc y ys)
  then show ?case
    by (auto simp: enumerate_append_eq nth_append)
qed

lemma getitem_Enumerable:
  "getitem (Enumerable xs) (int n) = (Inr (if n < length xs then xs ! n else None), Enumerable xs)"
  by (simp add: getitem_def to_list_Enumerable foldl_pick del: of_nat_eq_iff)

lemma element_at_Enumerable:
  "element_at (Enumerable xs) (int n) =
     (if n < length xs \<and> xs ! n \<noteq> None then Inr (xs ! n) else Inl IndexError, Enumerable xs)"
  by (simp add: element_at_def getitem_Enumerable)

lemma first_Enumerable:
  "first (Enumerable xs) =
     (if xs \<noteq> [] \<and> hd xs \<noteq> None then Inr (hd xs) else Inl IndexError, Enumerable xs)"
  using element_at_Enumerable[of xs 0]
  by (cases xs) (auto simp: first_def)

lemma first_or_default_Enumerable:
  "first_or_default (Enumerable xs) = (Inr (if xs = [] then None else hd xs), Enumerable xs)"
  using element_at_Enumerable[of xs 0]
  by (cases xs) (auto simp: first_or_default_def element_at_or_default_def)

lemma any_Enumerable:
  "any (Enumerable xs) = (Inr (xs \<noteq> [] \<and> hd xs \<noteq> None), Enumerable xs)"
  by (simp add: any_def first_or_default_Enumerable)

text \<open>
  C10. When the element at a valid position \<open>n\<close> is \<^verbatim>\<open>None\<close>, \<^verbatim>\<open>element_at(n)\<close>
  raises \<^verbatim>\<open>IndexError\<close>; when the first element of a non-empty sequence is
  \<^verbatim>\<open>None\<close>, \<^verbatim>\<open>first_or_default()\<close> returns \<^verbatim>\<open>None\<close> and \<^verbatim>\<open>any()\<close> returns
  \<^verbatim>\<open>False\<close>.
\<close>

theorem absent_sentinel_conflated:
  "(n < length xs \<and> xs ! n = None \<longrightarrow>
      element_at (Enumerable xs) (int n) = (Inl IndexError, Enumerable xs)) \<and>
   (xs \<noteq> [] \<and> hd xs = None \<longrightarrow>
      first_or_default (Enumerable xs) = (Inr None, Enumerable xs) \<and>
      any (Enumerable xs) = (Inr False, Enumerable xs))"
  by (simp add: element_at_Enumerable first_or_default_Enumerable any_Enumerable)

theorem absent_sentinel_conflated_witness:
  "(1::nat) < length [Some (7::int), None] \<and> [Some (7::int), None] ! 1 = None \<and>
   element_at (Enumerable [Some (7::int), None]) 1 = (Inl IndexError, Enumerable [Some 7, None]) \<and>
   [None, Some (7::int)] \<noteq> [] \<and> hd [None, Some (7::int)] = None \<and>
   first_or_default (Enumerable [None, Some (7::int)]) = (Inr None, Enumerable [None, Some 7]) \<and>
   any (Enumerable [None, Some (7::int)]) = (Inr False, Enumerable [None, Some 7])"
  using absent_sentinel_conflated [of 1 "[Some (7::int), None]"]
    absent_sentinel_conflated [of 0 "[None, Some (7::int)]"]
  by simp

section \<open>Aggregation\<close>

lemma foldl_skip_first:
  "foldl (\<lambda>result (i, x). if i = 0 \<and> True then result else func result x) r (enumerate 0 (y # ys))
    = foldl func r ys"
proof -
  have "foldl (\<lambda>result (i, x). if i = 0 then result else func result x) r (enumerate (Suc k) ys)
    = foldl func r ys" for k r
    by (induction ys arbitrary: k r) simp_all
  then show ?thesis by simp
qed

text \<open>
  Without a seed, on a sequence whose first element is not \<^verbatim>\<open>None\<close>, the first element
  is the initial accumulator and the function is folded over the rest, in order.
\<close>

lemma aggregate_no_seed:
  "x \<noteq> None \<Longrightarrow>
   aggregate (Enumerable (x # xs)) func None = (Inr (foldl func x xs), Enumerable (x # xs))"
  using foldl_skip_first[of func x x xs]
  by (simp add: aggregate_def first_Enumerable to_list_Enumerable)

text \<open>
  C7. On the empty sequence, \<^verbatim>\<open>aggregate\<close> without a seed raises \<^verbatim>\<open>IndexError\<close>:
  \<^verbatim>\<open>first()\<close> is \<^verbatim>\<open>element_at(0)\<close>, which raises it.
\<close>

theorem aggregate_empty_no_seed:
  "fst (aggregate (Enumerable []) func None) = Inl IndexError"
  by (simp add: aggregate_def first_Enumerable)

section \<open>\<^verbatim>\<open>skip_while\<close> and \<^verbatim>\<open>take_while\<close>\<close>

text \<open>
  The cycle of these nodes never ends on a non-empty list, and every element it gives is
  an element of the list.
\<close>

lemma replay_saved_inv:
  assumes "cycle_inv xs w" "saved w \<noteq> []" "source w = None"
  shows "\<exists>e' w'. replay_saved w = Some (e', w') \<and> e' \<in> set xs \<and> cycle_inv xs w'"
  using assms by (auto simp: cycle_inv_def replay_saved_def)

lemma next_wcycle_inv:
  assumes "cycle_inv xs w"
  shows "\<exists>e' w'. next_wcycle w = Some (e', w') \<and> e' \<in> set xs \<and> cycle_inv xs w'"
proof (cases "source w")
  case None
  with assms have "saved w \<noteq> []" by (simp add: cycle_inv_def)
  from replay_saved_inv[OF assms this None] None show ?thesis
    by (simp add: next_wcycle_def)
next
  case (Some g)
  show ?thesis
  proof (cases "g < length xs")
    case True
    with assms Some show ?thesis
      by (auto simp: next_wcycle_def iter_next_def next_cycle_def len_def cycle_inv_def)
  next
    case False
    with assms Some have ne: "saved w \<noteq> []" by (auto simp: cycle_inv_def)
    have inv: "cycle_inv xs (w\<lparr>source := None\<rparr>)"
      using assms ne by (auto simp: cycle_inv_def)
    have n: "iter_next (upstream w) g = None"
      using False assms by (simp add: iter_next_def len_def cycle_inv_def)
    from replay_saved_inv[OF inv] ne show ?thesis
      using Some n by (simp add: next_wcycle_def)
  qed
qed

lemma take_loop_never_ends:
  assumes p: "\<forall>x\<in>set xs. p x" and inv: "cycle_inv xs w"
  shows "take_loop p w e True i yielded = None"
proof (cases "take_loop p w e True i yielded")
  case None
  then show ?thesis .
next
  case (Some y)
  have "p = p \<and> True \<and> cycle_inv xs w \<longrightarrow> False"
  proof (rule take_loop.raw_induct
      [where P = "\<lambda>p' w e taking i yielded y. p' = p \<and> taking \<and> cycle_inv xs w \<longrightarrow> False", OF _ Some])
    fix take_loop' p' w e taking i yielded y
    assume IH: "\<And>p' w e taking i yielded y. take_loop' p' w e taking i yielded = Some y \<Longrightarrow>
                  p' = p \<and> taking \<and> cycle_inv xs w \<longrightarrow> False"
      and body: "(if taking
          then case next_wcycle w of None \<Rightarrow> Some (Inl StopIteration)
               | Some (e', w') \<Rightarrow> take_loop' p' w' e' (p' e') (Suc i) (yielded @ [e])
          else Some (Inr (yielded, i, w))) = Some y"
    show "p' = p \<and> taking \<and> cycle_inv xs w \<longrightarrow> False"
    proof
      assume a: "p' = p \<and> taking \<and> cycle_inv xs w"
      from next_wcycle_inv[of xs w] a obtain e' w'
        where n: "next_wcycle w = Some (e', w')" and e': "e' \<in> set xs" and inv': "cycle_inv xs w'"
        by blast
      from e' p have pe: "p e'" by simp
      from body a n pe have "take_loop' p w' e' True (Suc i) (yielded @ [e]) = Some y"
        by simp
      from IH[OF this] inv' show False by simp
    qed
  qed
  with inv show ?thesis by simp
qed

lemma first_pass_0:
  "SkipWhileEnumerable (Enumerable xs) = first_pass xs 0"
  "TakeWhileEnumerable (Enumerable xs) = first_pass xs 0"
  by (simp_all add: SkipWhileEnumerable_def TakeWhileEnumerable_def first_pass_def Enumerable_def iter_new_def)

lemma next_first_pass:
  assumes "k < length xs"
  shows "next_wcycle (first_pass xs k) = Some (xs ! k, first_pass xs (Suc k))"
proof -
  from assms have "xs \<noteq> []" by auto
  with assms show ?thesis
    by (simp add: next_wcycle_def first_pass_def iter_next_def len_def next_cycle_def
        take_Suc_conv_app_nth mod_Suc)
qed

lemma next_first_pass_end:
  "xs \<noteq> [] \<Longrightarrow> next_wcycle (first_pass xs (length xs)) = Some (xs ! 0, wrapped xs)"
  by (simp add: next_wcycle_def first_pass_def iter_next_def len_def replay_saved_def wrapped_def)

lemma next_first_pass_empty: "next_wcycle (first_pass [] 0) = None"
  by (simp add: next_wcycle_def first_pass_def iter_next_def len_def replay_saved_def)

lemma len_first_pass [simp]: "len (upstream (first_pass xs k)) = length xs"
  by (simp add: first_pass_def len_def)

lemma drain_first_pass:
  "i \<le> length xs \<Longrightarrow> drain_loop (first_pass xs i) i = (Inr (), first_pass xs (length xs))"
proof (induction "length xs - i" arbitrary: i)
  case 0
  then show ?case by (subst drain_loop.simps) simp
next
  case (Suc d)
  then have "i < length xs" by simp
  with Suc show ?case
    by (subst drain_loop.simps) (simp add: next_first_pass)
qed

lemma take_loop_first_pass:
  assumes "j < length xs" "\<not> p (xs ! j)" "\<forall>m<j. p (xs ! m)"
  shows "k \<le> j \<Longrightarrow>
     take_loop p (first_pass xs (Suc k)) (xs ! k) (p (xs ! k)) (Suc k) (take k xs)
       = Some (Inr (take j xs, Suc j, first_pass xs (Suc j)))"
proof (induction "j - k" arbitrary: k)
  case 0
  then have "k = j" by simp
  with assms show ?case by (subst take_loop.simps) simp
next
  case (Suc d)
  then have kj: "k < j" by simp
  with assms have pk: "p (xs ! k)" and k1: "Suc k < length xs" by auto
  have "take_loop p (first_pass xs (Suc (Suc k))) (xs ! Suc k) (p (xs ! Suc k)) (Suc (Suc k)) (take (Suc k) xs)
       = Some (Inr (take j xs, Suc j, first_pass xs (Suc j)))"
    using Suc kj by (intro Suc.hyps(1)) auto
  then show ?case
    using pk k1 kj assms(1)
    by (subst take_loop.simps) (simp add: next_first_pass take_Suc_conv_app_nth)
qed

lemma take_while_terminating:
  assumes "hd xs \<noteq> None" and "\<exists>x\<in>set xs. \<not> p x"
  shows "TakeWhile_to_list p (TakeWhileEnumerable (Enumerable xs))
           = Some (Inr (takeWhile p xs), first_pass xs (length xs))"
proof -
  define j where "j = length (takeWhile p xs)"
  have "takeWhile p xs \<noteq> xs"
    using assms(2) by (simp add: takeWhile_eq_all_conv)
  then have "length (takeWhile p xs) \<noteq> length xs"
    by (metis takeWhile_eq_take take_all order_refl)
  then have jn: "j < length xs"
    using length_takeWhile_le[of p xs] unfolding j_def by simp
  then have ne: "xs \<noteq> []" by auto
  have nj: "\<not> p (xs ! j)" using jn unfolding j_def by (rule nth_length_takeWhile)
  have pj: "\<forall>m<j. p (xs ! m)"
    unfolding j_def by (metis nth_mem set_takeWhileD takeWhile_nth)
  have tk: "takeWhile p xs = take j xs" unfolding j_def by (rule takeWhile_eq_take)
  have x0: "xs ! 0 \<noteq> None" using assms(1) ne by (simp add: hd_conv_nth)
  have f: "first_or_None (first_pass xs 0) = (xs ! 0, first_pass xs (Suc 0))"
    using ne by (simp add: first_or_None_def next_first_pass)
  have tl: "take_loop p (first_pass xs (Suc 0)) (xs ! 0) (p (xs ! 0)) (Suc 0) []
       = Some (Inr (take j xs, Suc j, first_pass xs (Suc j)))"
    using take_loop_first_pass[OF jn nj pj, of 0] by simp
  have dr: "drain_loop (first_pass xs (Suc j)) (Suc j) = (Inr (), first_pass xs (length xs))"
    using jn by (intro drain_first_pass) simp
  show ?thesis
    by (simp add: TakeWhile_to_list_def first_pass_0 f x0 tl dr tk)
qed

lemma take_while_never_ends:
  assumes "xs \<noteq> []" and "hd xs \<noteq> None" and "\<forall>x\<in>set xs. p x"
  shows "TakeWhile_to_list p (TakeWhileEnumerable (Enumerable xs)) = None"
proof -
  have x0: "xs ! 0 \<noteq> None" "p (xs ! 0)" using assms by (simp_all add: hd_conv_nth)
  have f: "first_or_None (first_pass xs 0) = (xs ! 0, first_pass xs (Suc 0))"
    using assms(1) by (simp add: first_or_None_def next_first_pass)
  have inv: "cycle_inv xs (first_pass xs (Suc 0))"
    using assms(1) by (auto simp: cycle_inv_def first_pass_def dest: in_set_takeD)
  show ?thesis
    by (simp add: TakeWhile_to_list_def first_pass_0 f x0 take_loop_never_ends[OF assms(3) inv])
qed

lemma skip_loop_never_ends:
  assumes p: "\<forall>x\<in>set xs. p x" and inv: "cycle_inv xs w"
  shows "skip_loop p w e True i = None"
proof (cases "skip_loop p w e True i")
  case None
  then show ?thesis .
next
  case (Some y)
  have "p = p \<and> True \<and> cycle_inv xs w \<longrightarrow> False"
  proof (rule skip_loop.raw_induct
      [where P = "\<lambda>p' w e skip i y. p' = p \<and> skip \<and> cycle_inv xs w \<longrightarrow> False", OF _ Some])
    fix skip_loop' p' w e skip i y
    assume IH: "\<And>p' w e skip i y. skip_loop' p' w e skip i = Some y \<Longrightarrow>
                  p' = p \<and> skip \<and> cycle_inv xs w \<longrightarrow> False"
      and body: "(if skip
          then case next_wcycle w of None \<Rightarrow> Some (Inl StopIteration)
               | Some (e', w') \<Rightarrow> skip_loop' p' w' e' (p' e') (if p' e' then Suc i else i)
          else Some (Inr (e, i, w))) = Some y"
    show "p' = p \<and> skip \<and> cycle_inv xs w \<longrightarrow> False"
    proof
      assume a: "p' = p \<and> skip \<and> cycle_inv xs w"
      from next_wcycle_inv[of xs w] a obtain e' w'
        where n: "next_wcycle w = Some (e', w')" and e': "e' \<in> set xs" and inv': "cycle_inv xs w'"
        by blast
      from e' p have pe: "p e'" by simp
      from body a n pe have "skip_loop' p w' e' True (Suc i) = Some y"
        by simp
      from IH[OF this] inv' show False by simp
    qed
  qed
  with inv show ?thesis by simp
qed

lemma skip_while_never_ends:
  assumes "xs \<noteq> []" and "hd xs \<noteq> None" and "\<forall>x\<in>set xs. p x"
  shows "SkipWhile_to_list p (SkipWhileEnumerable (Enumerable xs)) = None"
proof -
  have x0: "xs ! 0 \<noteq> None" "p (xs ! 0)" using assms by (simp_all add: hd_conv_nth)
  have f: "first_or_None (first_pass xs 0) = (xs ! 0, first_pass xs (Suc 0))"
    using assms(1) by (simp add: first_or_None_def next_first_pass)
  have inv: "cycle_inv xs (first_pass xs (Suc 0))"
    using assms(1) by (auto simp: cycle_inv_def first_pass_def dest: in_set_takeD)
  show ?thesis
    by (simp add: SkipWhile_to_list_def first_pass_0 f x0 skip_loop_never_ends[OF assms(3) inv])
qed

lemma yield_loop_no_wrap:
  "m < length xs \<Longrightarrow>
   yield_loop (first_pass xs (Suc m)) (xs ! m) (Suc m)
     = (Inr (drop m (butlast xs)), first_pass xs (length xs))"
proof (induction "length xs - Suc m" arbitrary: m)
  case 0
  then have "Suc m = length xs" by simp
  then show ?case by (subst yield_loop.simps) simp
next
  case (Suc d)
  then have sm: "Suc m < length xs" by simp
  have IH: "yield_loop (first_pass xs (Suc (Suc m))) (xs ! Suc m) (Suc (Suc m))
     = (Inr (drop (Suc m) (butlast xs)), first_pass xs (length xs))"
    using Suc sm by (intro Suc.hyps(1)) auto
  have "drop m (butlast xs) = xs ! m # drop (Suc m) (butlast xs)"
    using sm by (simp add: Cons_nth_drop_Suc[symmetric] nth_butlast)
  then show ?case
    using sm by (subst yield_loop.simps) (simp add: next_first_pass IH)
qed

lemma len_wrapped [simp]: "len (upstream (wrapped xs)) = length xs"
  by (simp add: wrapped_def len_def)

lemma yield_loop_wrap:
  "m < length xs \<Longrightarrow>
   yield_loop (first_pass xs (Suc m)) (xs ! m) m = (Inr (drop m xs), wrapped xs)"
proof (induction "length xs - m" arbitrary: m)
  case 0
  then show ?case by simp
next
  case (Suc d)
  then have ne: "xs \<noteq> []" by auto
  show ?case
  proof (cases "Suc m < length xs")
    case True
    have IH: "yield_loop (first_pass xs (Suc (Suc m))) (xs ! Suc m) (Suc m)
       = (Inr (drop (Suc m) xs), wrapped xs)"
      using Suc True by (intro Suc.hyps(1)) auto
    show ?thesis
      using True Suc.prems
      by (subst yield_loop.simps) (simp add: next_first_pass IH Cons_nth_drop_Suc)
  next
    case False
    with Suc.prems have e: "Suc m = length xs" by simp
    have stop: "yield_loop (wrapped xs) (xs ! 0) (length xs) = (Inr [], wrapped xs)"
      by (subst yield_loop.simps) simp
    have "drop m xs = [xs ! m]"
      using e Suc.prems by (metis Cons_nth_drop_Suc drop_all order_refl)
    then show ?thesis
      using Suc.prems e next_first_pass_end[OF ne]
      by (subst yield_loop.simps) (simp add: stop)
  qed
qed

lemma skip_loop_first_pass:
  assumes "j < length xs" "\<not> p (xs ! j)" "\<forall>m<j. p (xs ! m)"
  shows "k < j \<Longrightarrow>
     skip_loop p (first_pass xs (Suc k)) (xs ! k) True (Suc k)
       = Some (Inr (xs ! j, j, first_pass xs (Suc j)))"
proof (induction "j - Suc k" arbitrary: k)
  case 0
  then have e: "Suc k = j" by simp
  have stop: "skip_loop p (first_pass xs (Suc j)) (xs ! j) False j
     = Some (Inr (xs ! j, j, first_pass xs (Suc j)))"
    by (subst skip_loop.simps) simp
  show ?case
    using e assms(1,2) by (subst skip_loop.simps) (auto simp: next_first_pass stop)
next
  case (Suc d)
  then have kj: "Suc k < j" by simp
  with assms have pk: "p (xs ! Suc k)" and k1: "Suc k < length xs" by auto
  have "skip_loop p (first_pass xs (Suc (Suc k))) (xs ! Suc k) True (Suc (Suc k))
       = Some (Inr (xs ! j, j, first_pass xs (Suc j)))"
    using Suc kj by (intro Suc.hyps(1)) auto
  then show ?case
    using pk k1 by (subst skip_loop.simps) (simp add: next_first_pass)
qed

lemma skip_while_after_first:
  assumes "xs \<noteq> []" and "hd xs \<noteq> None" and "p (hd xs)" and "\<exists>x\<in>set xs. \<not> p x"
  shows "SkipWhile_to_list p (SkipWhileEnumerable (Enumerable xs))
           = Some (Inr (dropWhile p xs), wrapped xs)"
proof -
  define j where "j = length (takeWhile p xs)"
  have "takeWhile p xs \<noteq> xs"
    using assms(4) by (simp add: takeWhile_eq_all_conv)
  then have "length (takeWhile p xs) \<noteq> length xs"
    by (metis takeWhile_eq_take take_all order_refl)
  then have jn: "j < length xs"
    using length_takeWhile_le[of p xs] unfolding j_def by simp
  have nj: "\<not> p (xs ! j)" using jn unfolding j_def by (rule nth_length_takeWhile)
  have pj: "\<forall>m<j. p (xs ! m)"
    unfolding j_def by (metis nth_mem set_takeWhileD takeWhile_nth)
  have x0: "xs ! 0 \<noteq> None" "p (xs ! 0)" using assms by (simp_all add: hd_conv_nth)
  with nj have j0: "0 < j" by (cases j) auto
  have dr: "dropWhile p xs = drop j xs" unfolding j_def by (rule dropWhile_eq_drop)
  have f: "first_or_None (first_pass xs 0) = (xs ! 0, first_pass xs (Suc 0))"
    using assms(1) by (simp add: first_or_None_def next_first_pass)
  have sl: "skip_loop p (first_pass xs (Suc 0)) (xs ! 0) True (Suc 0)
       = Some (Inr (xs ! j, j, first_pass xs (Suc j)))"
    by (rule skip_loop_first_pass[OF jn nj pj j0])
  show ?thesis
    by (simp add: SkipWhile_to_list_def first_pass_0 f x0 sl yield_loop_wrap[OF jn] dr)
qed

lemma skip_while_first_fails:
  assumes "xs \<noteq> []" and "hd xs = None \<or> \<not> p (hd xs)"
  shows "SkipWhile_to_list p (SkipWhileEnumerable (Enumerable xs))
           = Some (Inr (butlast xs), first_pass xs (length xs))"
proof -
  have f: "first_or_None (first_pass xs 0) = (xs ! 0, first_pass xs (Suc 0))"
    using assms(1) by (simp add: first_or_None_def next_first_pass)
  have x0: "xs ! 0 = None \<or> \<not> p (xs ! 0)" using assms by (simp add: hd_conv_nth)
  have sl: "skip_loop p (first_pass xs (Suc 0)) (xs ! 0) False (Suc 0)
       = Some (Inr (xs ! 0, Suc 0, first_pass xs (Suc 0)))"
    by (subst skip_loop.simps) simp
  have yl: "yield_loop (first_pass xs (Suc 0)) (xs ! 0) (Suc 0)
     = (Inr (butlast xs), first_pass xs (length xs))"
    using yield_loop_no_wrap[of 0 xs] assms(1) by simp
  have sk: "(if xs ! 0 = None then False else p (xs ! 0)) = False"
    using x0 by auto
  show ?thesis
    by (simp add: SkipWhile_to_list_def first_pass_0 f sk sl yl)
qed

text \<open>
  C2. \<^verbatim>\<open>Enumerable([1, 2, 3]).skip_while(lambda x: x > 5).to_list()\<close>: the predicate
  fails on the first element, and the traversal yields \<open>[1, 2]\<close>; the last element is
  lost, because the yielding loop starts with \<open>i = 1\<close> and stops at \<^verbatim>\<open>len(self.data)\<close>.
\<close>

theorem skip_while_drops_last:
  "map_option fst
     (SkipWhile_to_list (\<lambda>x. case x of None \<Rightarrow> False | Some v \<Rightarrow> 5 < v)
        (SkipWhileEnumerable (Enumerable [Some (1::int), Some 2, Some 3])))
   = Some (Inr [Some 1, Some 2])"
  by (simp add: SkipWhile_to_list_def first_or_None_def SkipWhileEnumerable_def next_wcycle_def
      iter_new_def iter_next_def len_def Enumerable_def next_cycle_def skip_loop.simps
      yield_loop.simps replay_saved_def)


section \<open>\<^verbatim>\<open>reverse\<close>\<close>

lemma faithful_lenD:
  "faithful up G ys \<Longrightarrow> G s \<Longrightarrow> \<exists>s'. G s' \<and> len_of up s = Some (Inr (length ys), s')"
  by (simp add: faithful_def)

lemma faithful_listD:
  "faithful up G ys \<Longrightarrow> G s \<Longrightarrow> \<exists>s'. G s' \<and> list_of up s = Some (Inr ys, s')"
  by (simp add: faithful_def)

lemma faithful_itemD:
  "faithful up G ys \<Longrightarrow> G s \<Longrightarrow> k < length ys \<Longrightarrow>
   \<exists>s'. G s' \<and> item_of up (int k) s = Some (Inr (ys ! k), s')"
  by (simp add: faithful_def)

lemma faithful_Enumerable_node: "faithful Enumerable_node (\<lambda>e. e = Enumerable xs) xs"
  by (simp add: faithful_def Enumerable_node_def to_list_Enumerable getitem_Enumerable)

lemma rev_len_upstream:
  assumes "faithful up G ys" "G s"
  shows "\<exists>s'. G s' \<and> on_upstream (inherited_len up) (s, c) = Some (Inr (length ys), (s', c))"
proof -
  from faithful_listD[OF assms] obtain s' where "G s'" "list_of up s = Some (Inr ys, s')" by blast
  then show ?thesis
    by (auto simp: on_upstream_def inherited_len_def and_then_def return_def)
qed

lemma next_rc_first:
  assumes "faithful up G ys" "G s" "i < length ys"
  shows "\<exists>s'. G s' \<and> next_rcycle up (s, rc_first ys i)
            = Some (Inr (rev ys ! i), (s', rc_first ys (Suc i)))"
proof -
  have idx: "int (length ys) - 1 - int i = int (length ys - Suc i)" using assms(3) by simp
  have lt: "length ys - Suc i < length ys" using assms(3) by simp
  from faithful_itemD[OF assms(1,2) lt] obtain s'
    where g: "G s'" and it: "item_of up (int (length ys - Suc i)) s = Some (Inr (ys ! (length ys - Suc i)), s')"
    by blast
  have r: "rev ys ! i = ys ! (length ys - Suc i)" using assms(3) by (simp add: rev_nth)
  have t: "take (Suc i) (rev ys) = take i (rev ys) @ [rev ys ! i]"
    using assms(3) by (simp add: take_Suc_conv_app_nth)
  have idx2: "int (length ys - Suc i) - 1 = int (length ys) - 1 - int (Suc i)"
    using assms(3) by simp
  have "next_rcycle up (s, rc_first ys i)
      = Some (Inr (ys ! (length ys - Suc i)),
              (s', (rc_first ys i)\<lparr>rindex := rindex (rc_first ys i) - 1,
                                    rsaved := rsaved (rc_first ys i) @ [ys ! (length ys - Suc i)]\<rparr>))"
    using it by (simp add: next_rcycle_def rc_first_def idx del: of_nat_diff)
  also have "(rc_first ys i)\<lparr>rindex := rindex (rc_first ys i) - 1,
                             rsaved := rsaved (rc_first ys i) @ [ys ! (length ys - Suc i)]\<rparr>
      = rc_first ys (Suc i)"
    using assms(3) by (simp add: rc_first_def t r)
  finally show ?thesis using g r by auto
qed

lemma next_rc_replay:
  assumes "j < length ys" "c = rc_replay ys j \<or> (c = rc_first ys (length ys) \<and> j = 0)"
  shows "next_rcycle up (s, c)
            = Some (Inr (rev ys ! j), (s, rc_replay ys (if Suc j \<ge> length ys then 0 else Suc j)))"
  using assms by (auto simp: next_rcycle_def rc_first_def rc_replay_def replay_rsaved_def)

lemma iter_first_pass:
  assumes f: "faithful up G ys"
  shows "G s \<Longrightarrow> i \<le> length ys \<Longrightarrow>
     \<exists>s'. G s' \<and>
       inherited_iter (on_upstream (inherited_len up)) (next_rcycle up) i acc (s, rc_first ys i)
         = Some (Inr (acc @ drop i (rev ys)), (s', rc_first ys (length ys)))"
proof (induction "length ys - i" arbitrary: i s acc)
  case 0
  then have i: "i = length ys" by simp
  from rev_len_upstream[OF f "0.prems"(1), of "rc_first ys (length ys)"] obtain s1
    where g1: "G s1"
      and l: "on_upstream (inherited_len up) (s, rc_first ys (length ys))
                = Some (Inr (length ys), (s1, rc_first ys (length ys)))"
    by blast
  show ?case
    unfolding i using g1 by (subst inherited_iter.simps) (auto simp: l)
next
  case (Suc d)
  then have i: "i < length ys" by simp
  from rev_len_upstream[OF f Suc.prems(1), of "rc_first ys i"] obtain s1
    where g1: "G s1"
      and l: "on_upstream (inherited_len up) (s, rc_first ys i) = Some (Inr (length ys), (s1, rc_first ys i))"
    by blast
  from next_rc_first[OF f g1 i] obtain s2
    where g2: "G s2"
      and n: "next_rcycle up (s1, rc_first ys i) = Some (Inr (rev ys ! i), (s2, rc_first ys (Suc i)))"
    by blast
  have "d = length ys - Suc i" using Suc.hyps(2) by simp
  from Suc.hyps(1)[OF this g2, of "acc @ [rev ys ! i]"] i obtain s3
    where g3: "G s3"
      and r: "inherited_iter (on_upstream (inherited_len up)) (next_rcycle up) (Suc i)
                (acc @ [rev ys ! i]) (s2, rc_first ys (Suc i))
              = Some (Inr ((acc @ [rev ys ! i]) @ drop (Suc i) (rev ys)), (s3, rc_first ys (length ys)))"
    by auto
  have "(acc @ [rev ys ! i]) @ drop (Suc i) (rev ys) = acc @ drop i (rev ys)"
    using i by (simp add: Cons_nth_drop_Suc)
  with r g3 show ?case
    using i by (subst inherited_iter.simps) (auto simp: l n)
qed

lemma iter_replay:
  assumes f: "faithful up G ys"
  shows "G s \<Longrightarrow> i \<le> length ys \<Longrightarrow> ys \<noteq> [] \<Longrightarrow>
     c = rc_replay ys (if i \<ge> length ys then 0 else i) \<or> (i = 0 \<and> c = rc_first ys (length ys)) \<Longrightarrow>
     \<exists>s'. G s' \<and>
       inherited_iter (on_upstream (inherited_len up)) (next_rcycle up) i acc (s, c)
         = Some (Inr (acc @ drop i (rev ys)), (s', rc_replay ys 0))"
proof (induction "length ys - i" arbitrary: i s acc c)
  case 0
  then have i: "i = length ys" and c: "c = rc_replay ys 0" by auto
  from rev_len_upstream[OF f "0.prems"(1), of "rc_replay ys 0"] obtain s1
    where g1: "G s1"
      and l: "on_upstream (inherited_len up) (s, rc_replay ys 0)
                = Some (Inr (length ys), (s1, rc_replay ys 0))"
    by blast
  show ?case
    unfolding i c using g1 by (subst inherited_iter.simps) (auto simp: l)
next
  case (Suc d)
  then have i: "i < length ys" by simp
  from rev_len_upstream[OF f Suc.prems(1), of c] obtain s1
    where g1: "G s1"
      and l: "on_upstream (inherited_len up) (s, c) = Some (Inr (length ys), (s1, c))"
    by blast
  have cc: "c = rc_replay ys i \<or> (c = rc_first ys (length ys) \<and> i = 0)"
    using Suc.prems(4) i by auto
  have n: "next_rcycle up (s1, c)
      = Some (Inr (rev ys ! i), (s1, rc_replay ys (if Suc i \<ge> length ys then 0 else Suc i)))"
    by (rule next_rc_replay[OF i cc])
  have "d = length ys - Suc i" using Suc.hyps(2) by simp
  from Suc.hyps(1)[OF this g1 _ Suc.prems(3), of "rc_replay ys (if Suc i \<ge> length ys then 0 else Suc i)"
      "acc @ [rev ys ! i]"] i obtain s3
    where g3: "G s3"
      and r: "inherited_iter (on_upstream (inherited_len up)) (next_rcycle up) (Suc i)
                (acc @ [rev ys ! i]) (s1, rc_replay ys (if Suc i \<ge> length ys then 0 else Suc i))
              = Some (Inr ((acc @ [rev ys ! i]) @ drop (Suc i) (rev ys)), (s3, rc_replay ys 0))"
    by auto
  have "(acc @ [rev ys ! i]) @ drop (Suc i) (rev ys) = acc @ drop i (rev ys)"
    using i by (simp add: Cons_nth_drop_Suc)
  with r g3 show ?case
    using i by (subst inherited_iter.simps) (auto simp: l n)
qed

lemma list_of_ReversedEnumerable:
  "list_of (ReversedEnumerable up)
     = inherited_iter (on_upstream (inherited_len up)) (next_rcycle up) 0 []"
  "len_of (ReversedEnumerable up) = on_upstream (inherited_len up)"
  "item_of (ReversedEnumerable up)
     = inherited_getitem (on_upstream (inherited_len up))
         (inherited_iter (on_upstream (inherited_len up)) (next_rcycle up) 0 [])"
  by (simp_all add: ReversedEnumerable_def Let_def)

lemma traverse_reversed:
  assumes f: "faithful up G ys" and g: "rgood G ys st"
  shows "\<exists>st'. rgood G ys st' \<and> list_of (ReversedEnumerable up) st = Some (Inr (rev ys), st')"
proof -
  obtain s c where st: "st = (s, c)" by (cases st)
  from g st have gs: "G s"
    and c: "c = rc_first ys 0 \<or> c = rc_first ys (length ys) \<or> (ys \<noteq> [] \<and> c = rc_replay ys 0)"
    by (auto simp: rgood_def)
  show ?thesis
  proof (cases "c = rc_first ys 0")
    case True
    from iter_first_pass[OF f gs, of 0 "[]"] obtain s' where "G s'"
      "inherited_iter (on_upstream (inherited_len up)) (next_rcycle up) 0 [] (s, rc_first ys 0)
         = Some (Inr (rev ys), (s', rc_first ys (length ys)))"
      by auto
    then show ?thesis
      unfolding st True list_of_ReversedEnumerable
      by (intro exI[of _ "(s', rc_first ys (length ys))"]) (simp add: rgood_def)
  next
    case False
    with c have ne: "ys \<noteq> []" and c': "c = rc_replay ys (if 0 \<ge> length ys then 0 else 0) \<or>
        (0 = (0::nat) \<and> c = rc_first ys (length ys))"
      by auto
    from iter_replay[OF f gs _ ne c', of "[]"] obtain s' where "G s'"
      "inherited_iter (on_upstream (inherited_len up)) (next_rcycle up) 0 [] (s, c)
         = Some (Inr (rev ys), (s', rc_replay ys 0))"
      by auto
    then show ?thesis
      unfolding st list_of_ReversedEnumerable
      using ne by (intro exI[of _ "(s', rc_replay ys 0)"]) (simp add: rgood_def)
  qed
qed

lemma foldl_pick_nth:
  "k < length ys \<Longrightarrow>
   foldl (\<lambda>result (index, element). if int index = int k then element else result) None (enumerate 0 ys)
     = ys ! k"
  by (simp add: foldl_pick del: of_nat_eq_iff)

text \<open>
  Over a faithful node, \<^verbatim>\<open>reverse\<close> gives a node that is faithful to the reversed list.
\<close>

lemma faithful_ReversedEnumerable:
  assumes f: "faithful up G ys"
  shows "faithful (ReversedEnumerable up) (rgood G ys) (rev ys)"
  unfolding faithful_def
proof (intro allI impI conjI)
  fix st assume g: "rgood G ys st"
  obtain s c where st: "st = (s, c)" by (cases st)
  from g st have gs: "G s" by (simp add: rgood_def)
  from rev_len_upstream[OF f gs, of c] obtain s1 where g1: "G s1"
    and l: "on_upstream (inherited_len up) (s, c) = Some (Inr (length ys), (s1, c))" by blast
  have g1': "rgood G ys (s1, c)" using g g1 st by (simp add: rgood_def)
  show "\<exists>s'. rgood G ys s' \<and> len_of (ReversedEnumerable up) st = Some (Inr (length (rev ys)), s')"
    unfolding st list_of_ReversedEnumerable using l g1' by auto
  show "\<exists>s'. rgood G ys s' \<and> list_of (ReversedEnumerable up) st = Some (Inr (rev ys), s')"
    by (rule traverse_reversed[OF f g])
  fix k assume k: "k < length (rev ys)"
  from traverse_reversed[OF f g1'] obtain st2 where g2: "rgood G ys st2"
    and t: "list_of (ReversedEnumerable up) (s1, c) = Some (Inr (rev ys), st2)" by blast
  from k have ne: "ys \<noteq> []" by auto
  have "item_of (ReversedEnumerable up) (int k) st = Some (Inr (rev ys ! k), st2)"
    using k ne t l foldl_pick_nth[of k "rev ys"]
    unfolding st list_of_ReversedEnumerable
    by (simp add: inherited_getitem_def and_then_def return_def del: of_nat_eq_iff)
  with g2 show "\<exists>s'. rgood G ys s' \<and> item_of (ReversedEnumerable up) (int k) st = Some (Inr (rev ys ! k), s')"
    by blast
qed

lemma ReversedEnumerable_init_faithful:
  assumes f: "faithful up G ys" and g: "G s"
  shows "\<exists>st. rgood G ys st \<and> ReversedEnumerable_init up s = Some (Inr st)"
proof -
  from faithful_lenD[OF f g] obtain s' where "G s'" "len_of up s = Some (Inr (length ys), s')"
    by blast
  then show ?thesis
    by (auto simp: ReversedEnumerable_init_def rgood_def rc_first_def)
qed

text \<open>
  On a node over a list, \<^verbatim>\<open>reverse().to_list()\<close> is the reversed list and
  \<^verbatim>\<open>reverse().reverse().to_list()\<close> is the list.
\<close>

lemma reverse_plain:
  "\<exists>st st'. ReversedEnumerable_init Enumerable_node (Enumerable xs) = Some (Inr st) \<and>
     list_of (ReversedEnumerable Enumerable_node) st = Some (Inr (rev xs), st')"
proof -
  note f = faithful_Enumerable_node[of xs]
  from ReversedEnumerable_init_faithful[OF f refl] obtain st
    where g: "rgood (\<lambda>e. e = Enumerable xs) xs st"
      and i: "ReversedEnumerable_init Enumerable_node (Enumerable xs) = Some (Inr st)" by blast
  from traverse_reversed[OF f g] i show ?thesis by blast
qed

lemma reverse_reverse_plain:
  "\<exists>st st2 st'. ReversedEnumerable_init Enumerable_node (Enumerable xs) = Some (Inr st) \<and>
     ReversedEnumerable_init (ReversedEnumerable Enumerable_node) st = Some (Inr st2) \<and>
     list_of (ReversedEnumerable (ReversedEnumerable Enumerable_node)) st2 = Some (Inr xs, st')"
proof -
  note f = faithful_Enumerable_node[of xs]
  note f2 = faithful_ReversedEnumerable[OF f]
  from ReversedEnumerable_init_faithful[OF f refl] obtain st
    where g: "rgood (\<lambda>e. e = Enumerable xs) xs st"
      and i: "ReversedEnumerable_init Enumerable_node (Enumerable xs) = Some (Inr st)" by blast
  from ReversedEnumerable_init_faithful[OF f2 g] obtain st2
    where g2: "rgood (rgood (\<lambda>e. e = Enumerable xs) xs) (rev xs) st2"
      and i2: "ReversedEnumerable_init (ReversedEnumerable Enumerable_node) st = Some (Inr st2)" by blast
  from traverse_reversed[OF f2 g2] obtain st'
    where "list_of (ReversedEnumerable (ReversedEnumerable Enumerable_node)) st2 = Some (Inr (rev (rev xs)), st')"
    by blast
  with i i2 show ?thesis by (intro exI[of _ st] exI[of _ st2] exI[of _ st']) simp
qed

text \<open>
  C8. \<^verbatim>\<open>Enumerable([1, 2, 3, 4]).skip(1).reverse().to_list()\<close>. The skip node yields
  \<open>[2, 3, 4]\<close>, but it inherits \<^verbatim>\<open>__len__\<close>, which counts its upstream node: its length
  is 4. So \<^verbatim>\<open>reversed\<close> starts at index 3, where \<^verbatim>\<open>__getitem__\<close> finds nothing and
  returns \<^verbatim>\<open>None\<close>, and the reversed node, whose own length is 3, yields
  \<open>[None, 4, 3]\<close>.
\<close>

theorem reverse_of_skip:
  "map_option fst (list_of (SkipEnumerable Enumerable_node 1)
      (Enumerable [Some (1::int), Some 2, Some 3, Some 4]))
     = Some (Inr [Some 2, Some 3, Some 4]) \<and>
   ReversedEnumerable_init (SkipEnumerable Enumerable_node 1)
      (Enumerable [Some (1::int), Some 2, Some 3, Some 4])
     = Some (Inr (Enumerable [Some 1, Some 2, Some 3, Some 4],
                  \<lparr>rindex = 3, rlive = True, rsaved = [], rreplay = 0\<rparr>)) \<and>
   map_option fst (list_of (ReversedEnumerable (SkipEnumerable Enumerable_node 1))
      (Enumerable [Some (1::int), Some 2, Some 3, Some 4],
       \<lparr>rindex = 3, rlive = True, rsaved = [], rreplay = 0\<rparr>))
     = Some (Inr [None, Some 4, Some 3])"
  by code_simp

section \<open>Ordering\<close>







lemma mset_py_sorted [simp]: "mset (py_sorted k desc zs) = mset zs"
  by (simp add: py_sorted_def)

lemma mset_foldr_py_sorted [simp]:
  "mset (foldr (\<lambda>od d. py_sorted (fst od) (snd od) d) kfs zs) = mset zs"
  by (induction kfs) simp_all







section \<open>Mutation of the receiver by \<^verbatim>\<open>then_by\<close>\<close>

lemma then_by_mutates_receiver:
  "key_funcs (snd (then_by s func)) = key_funcs s @ [(func, False)]"
proof -
  obtain p where "snd (to_list (s\<lparr>key_funcs := key_funcs s @ [(func, False)]\<rparr>))
      = s\<lparr>key_funcs := key_funcs s @ [(func, False)], cycle_pos := p\<rparr>"
    using iter_from_moves_cursor_only[of "s\<lparr>key_funcs := key_funcs s @ [(func, False)]\<rparr>" iter_new]
    by (auto simp: to_list_def)
  then show ?thesis
    by (simp add: then_by_def SortedEnumerable_def Let_def case_prod_beta)
qed

text \<open>
  C5. \<^verbatim>\<open>s = Enumerable([(1, 2, 1), (1, 1, 2)]).order_by(lambda t: t[0])\<close>, then
  \<^verbatim>\<open>s.then_by(lambda t: t[1])\<close>, then \<^verbatim>\<open>s.then_by(lambda t: t[2])\<close>. The first
  \<^verbatim>\<open>then_by\<close> leaves a second directive in the receiver, so the second \<^verbatim>\<open>then_by\<close>
  sorts by three keys and gives \<open>[(1, 1, 2), (1, 2, 1)]\<close>. The same call made on the node
  that \<^verbatim>\<open>order_by\<close> returned gives \<open>[(1, 2, 1), (1, 1, 2)]\<close>.
\<close>

theorem then_by_changes_receiver:
  "(let (s, e) = order_by (Enumerable [Some (1, 2, 1), Some (1, 1, 2)]) item0;
        (a, s1) = then_by s item1;
        (b, s2) = then_by s1 item2
    in (length (key_funcs s), length (key_funcs s1), fst (to_list b),
        fst (to_list (fst (then_by s item2)))))
   = (1, 2, [Some (1, 1, 2), Some (1, 2, 1)], [Some (1, 2, 1), Some (1, 1, 2)])"
  by code_simp

section \<open>\<^verbatim>\<open>median\<close>\<close>





section \<open>Keys of \<^verbatim>\<open>union\<close> and \<^verbatim>\<open>group_by\<close>\<close>


















section \<open>\<^verbatim>\<open>group_join\<close>\<close>

text \<open>One row for each outer element, whatever the result selector does.\<close>

lemma GroupJoin_iter_length:
  "length (fst (GroupJoin_iter outer_key result_func outer fr)) = length outer"
  by (induction outer arbitrary: fr) (simp_all add: Let_def case_prod_beta)

text \<open>
  A result selector that traverses the grouping it is given, during the call, finds the
  inner elements whose key is the key of the outer element.
\<close>

lemma GroupJoin_iter_eager:
  "fst (GroupJoin_iter outer_key
          (\<lambda>(outer, g) fr. (outer, jkey_prop g, join_grouping_to_list fr inner_key inner)) outer fr)
     = map (\<lambda>outer. (outer, [(''id'', outer_key outer)],
                      filter (\<lambda>i. inner_key i = outer_key outer) inner)) outer"
  by (induction outer arbitrary: fr)
     (simp_all add: Let_def join_grouping_to_list_def case_prod_beta)

text \<open>
  C3. \<^verbatim>\<open>Enumerable([1, 2, 3]).group_join(Enumerable([(1, "a"), (1, "b"), (2, "c")]),
  outer_key=lambda x: x, inner_key=lambda p: p[0]).to_list()\<close>, with the default result
  selector: the rows are collected first and the groupings traversed afterwards. There
  are three rows, each with the key of its outer element, but every grouping is
  traversed with \<^verbatim>\<open>ok = 3\<close> and is empty, also those of \<open>1\<close> and \<open>2\<close>.
\<close>

theorem group_join_deferred_groupings:
  "(let (rows, fr) = GroupJoin_iter int_key (\<lambda>row fr. row) [Some 1, Some 2, Some 3] \<lparr>ok = None\<rparr>
    in map (\<lambda>(outer, g). (outer, jkey_prop g,
              join_grouping_to_list fr pair_item0 [Some (1, ''a''), Some (1, ''b''), Some (2, ''c'')]))
         rows)
   = [(Some 1, [(''id'', 1)], []), (Some 2, [(''id'', 2)], []), (Some 3, [(''id'', 3)], [])]"
  by (simp add: int_key_def pair_item0_def join_grouping_to_list_def)

end
